theory Spec2Isabelle
  imports Complex_Main "HOL-Library.Word"
begin

unbundle bit_operations_syntax

section \<open>The numeric field decoder: \<open>read_float\<close> (nuts\_bolts.cpp)\<close>

text \<open>
  Conventions of the embedding.
  \<^item> A C string is a \<open>string\<close> without its terminating NUL; reading at or past the end
    yields the NUL byte, which is neither a sign, a digit nor a decimal point.
  \<^item> \<open>uint8_t\<close> and \<open>unsigned char\<close> are \<open>8 word\<close>, \<open>uint32_t\<close> is \<open>32 word\<close>; the
    exponent is an \<open>8 word\<close> read through \<open>sint\<close> (the source declares it \<open>int88_t\<close>,
    a slip of the pen for \<open>int8_t\<close>); \<open>exponent++\<close> and \<open>num_digits++\<close> wrap around.
  \<^item> A cursor beyond the end of the line is read as if it stood on the terminator.
  \<^item> \<open>float\<close> is idealised as \<open>real\<close>: the multiplications by 0.01, 0.1 and 10.0 are
    exact, so rounding of single-precision arithmetic is not part of the model.
  \<^item> The two output parameters \<open>*char_counter\<close> and \<open>*float_ptr\<close> are passed in and
    returned, so that "left unmodified" can be stated.
\<close>

definition MAX_INT_DIGITS :: "8 word" where
  "MAX_INT_DIGITS = 8"

record scan_state =
  integer_value :: "32 word"
  exponent :: "8 word"
  num_digits :: "8 word"
  is_decimal :: bool

definition scan_init :: scan_state where
  "scan_init = \<lparr>integer_value = 0, exponent = 0, num_digits = 0, is_decimal = False\<rparr>"

text \<open>The body of the branch \<open>if (current_char <= 9)\<close>; \<open>c\<close> is the character minus \<open>'0'\<close>.\<close>

definition accept_digit :: "8 word \<Rightarrow> scan_state \<Rightarrow> scan_state" where
  "accept_digit c s =
     (let n = num_digits s + 1 in
      if n \<le> MAX_INT_DIGITS then
        s\<lparr>integer_value := push_bit 1 (push_bit 2 (integer_value s) + integer_value s) + ucast c,
          exponent := (if is_decimal s then exponent s - 1 else exponent s),
          num_digits := n\<rparr>
      else
        s\<lparr>exponent := (if \<not> is_decimal s then exponent s + 1 else exponent s),
          num_digits := n\<rparr>)"

text \<open>
  The \<open>while(1)\<close> loop. The first argument is the text from the current character on,
  the second the index of the current character in the line. The result is the index of
  the character that ended the scan, paired with the final scan state.
\<close>

fun scan_number :: "string \<Rightarrow> nat \<Rightarrow> scan_state \<Rightarrow> nat \<times> scan_state" where
  "scan_number [] p s = (p, s)"
| "scan_number (ch # rest) p s =
     (let c = (of_char ch :: 8 word) - 48 in
      if c \<le> 9 then scan_number rest (p + 1) (accept_digit c s)
      else if c = 254 \<and> \<not> is_decimal s then scan_number rest (p + 1) (s\<lparr>is_decimal := True\<rparr>)
      else (p, s))"

text \<open>\<open>while (exponent <= -2) { float_value *= 0.01; exponent += 2; }\<close>\<close>

function scale_down :: "real \<Rightarrow> int \<Rightarrow> real \<times> int" where
  "scale_down f e = (if e \<le> - 2 then scale_down (f * 0.01) (e + 2) else (f, e))"
  by pat_completeness auto
termination
  by (relation "measure (\<lambda>(f, e). nat (- e))") auto

text \<open>\<open>do { float_value *= 10.0; } while (--exponent > 0);\<close>\<close>

function scale_up :: "real \<Rightarrow> int \<Rightarrow> real" where
  "scale_up f e = (if e - 1 > 0 then scale_up (f * 10.0) (e - 1) else f * 10.0)"
  by pat_completeness auto
termination
  by (relation "measure (\<lambda>(f, e). nat e)") auto

definition apply_decimal :: "real \<Rightarrow> int \<Rightarrow> real" where
  "apply_decimal float_value e =
     (if float_value \<noteq> 0 then
        (let (f, e') = scale_down float_value e in
         if e' < 0 then f * 0.1
         else if e' > 0 then scale_up f e'
         else f)
      else float_value)"

definition read_float :: "string \<Rightarrow> 8 word \<Rightarrow> real \<Rightarrow> bool \<times> 8 word \<times> real" where
  "read_float line char_counter float_ptr =
     (let p0 = unat char_counter;
          txt = drop p0 line;
          (is_negative, p1, txt1) =
             (case txt of
                [] \<Rightarrow> (False, p0, txt)
              | ch # rest \<Rightarrow>
                  if ch = CHR ''-'' then (True, p0 + 1, rest)
                  else if ch = CHR ''+'' then (False, p0 + 1, rest)
                  else (False, p0, txt));
          (p2, s) = scan_number txt1 p1 scan_init
      in if num_digits s = 0 then (False, char_counter, float_ptr)
         else
           (let float_value = apply_decimal (real (unat (integer_value s))) (sint (exponent s))
            in (True, word_of_nat p2, if is_negative then - float_value else float_value)))"


subsection \<open>The numerals the decoder is specified on\<close>

text \<open>
  The reference reading of a numeral, independent of the scan above: a digit is one of the
  ten ASCII digits, and a digit string denotes the number obtained by Horner's rule.
\<close>

definition is_digit :: "char \<Rightarrow> bool" where
  "is_digit ch = (ch \<in> set ''0123456789'')"

definition digit_val :: "char \<Rightarrow> nat" where
  "digit_val ch = of_char ch - 48"

fun digits_acc :: "nat \<Rightarrow> string \<Rightarrow> nat" where
  "digits_acc a [] = a"
| "digits_acc a (ch # rest) = digits_acc (10 * a + digit_val ch) rest"

definition digits_value :: "string \<Rightarrow> nat" where
  "digits_value ds = digits_acc 0 ds"

definition skip_sign :: "string \<Rightarrow> string" where
  "skip_sign txt =
     (case txt of [] \<Rightarrow> []
      | ch # rest \<Rightarrow> if ch = CHR ''-'' \<or> ch = CHR ''+'' then rest else txt)"

definition skip_point :: "string \<Rightarrow> string" where
  "skip_point txt =
     (case txt of [] \<Rightarrow> []
      | ch # rest \<Rightarrow> if ch = CHR ''.'' then rest else txt)"

text \<open>
  No digit is readable at offset \<open>p\<close>: after an optional sign and an optional decimal
  point the line ends or continues with a character that is not a digit.
\<close>

definition no_digit_at :: "string \<Rightarrow> nat \<Rightarrow> bool" where
  "no_digit_at line p =
     (case skip_point (skip_sign (drop p line)) of [] \<Rightarrow> True | ch # _ \<Rightarrow> \<not> is_digit ch)"

text \<open>
  The text a successful scan consumes: a sign, the digits \<open>ip\<close> before the decimal
  point, and, if there is a decimal point, the point and the digits \<open>fp\<close> after it.
\<close>

definition numeral_text :: "string \<Rightarrow> string \<Rightarrow> bool \<Rightarrow> string \<Rightarrow> string" where
  "numeral_text sign ip dot fp = sign @ ip @ (if dot then CHR ''.'' # fp else [])"

text \<open>The character after the numeral ends the scan (or the line ends there).\<close>

definition ends_scan :: "bool \<Rightarrow> string \<Rightarrow> bool" where
  "ends_scan dot rest =
     (case rest of [] \<Rightarrow> True
      | ch # _ \<Rightarrow> \<not> is_digit ch \<and> (dot \<or> ch \<noteq> CHR ''.''))"

section \<open>The response encoders (report.cpp)\<close>

subsection \<open>Formatted output\<close>

text \<open>
  The C library's \<open>sprintf\<close> for the conversions the encoders use. Strings grow as needed:
  the fixed sizes of the local buffers are not part of the model. A float argument is a
  real (finite by construction); \<open>%w.pf\<close> prints the sign, the value rounded to \<open>p\<close>
  decimals (nearest, halves away from zero) and pads with blanks on the left to width \<open>w\<close>.
\<close>

definition CRLF :: string where
  "CRLF = [CHR 0x0D, CHR 0x0A]"

definition digit_char :: "nat \<Rightarrow> char" where
  "digit_char d = ''0123456789'' ! d"

function decimal :: "nat \<Rightarrow> string" where
  "decimal n = (if n < 10 then [digit_char n] else decimal (n div 10) @ [digit_char (n mod 10)])"
  by pat_completeness auto
termination
  by (relation "measure id") auto

declare decimal.simps [simp del]

definition sprintf_d :: "int \<Rightarrow> string" where
  "sprintf_d i = (if i < 0 then CHR ''-'' # decimal (nat (- i)) else decimal (nat i))"

fun fraction_digits :: "nat \<Rightarrow> nat \<Rightarrow> string" where
  "fraction_digits 0 m = []"
| "fraction_digits (Suc p) m = fraction_digits p (m div 10) @ [digit_char (m mod 10)]"

definition sprintf_f :: "nat \<Rightarrow> nat \<Rightarrow> real \<Rightarrow> string" where
  "sprintf_f width precision x =
     (let m = nat (round (\<bar>x\<bar> * 10 ^ precision));
          body = (if x < 0 then ''-'' else []) @ decimal (m div 10 ^ precision) @
                 (if precision = 0 then []
                  else CHR ''.'' # fraction_digits precision (m mod 10 ^ precision))
      in replicate (width - length body) CHR '' '' @ body)"

subsection \<open>Configuration and controller state\<close>

text \<open>
  The macros of \<open>config.h\<close>, \<open>system.h\<close> and the other headers are not among the sources;
  the ones the modelled functions use are the fields of a configuration value. A feature
  macro tested with \<open>#ifdef\<close> is a boolean.
\<close>

record config =
  N_AXIS :: nat
  MM_PER_INCH :: real
  INCH_PER_MM :: real
  TOOL_LENGTH_OFFSET_AXIS :: nat
  SETTING_INDEX_NCOORD :: nat
  STATUS_OK :: "8 word"
  STATUS_SETTING_READ_FAIL :: "8 word"
  REPORT_FIELD_WORK_COORD_OFFSET :: bool
  REPORT_FIELD_OVERRIDES :: bool
  COOLANT_MIST_PIN :: bool
  REPORT_WCO_REFRESH_BUSY_COUNT :: int
  REPORT_WCO_REFRESH_IDLE_COUNT :: int
  REPORT_OVR_REFRESH_BUSY_COUNT :: int
  REPORT_OVR_REFRESH_IDLE_COUNT :: int
  SPINDLE_STATE_CW :: "8 word"
  COOLANT_STATE_FLOOD :: "8 word"
  COOLANT_STATE_MIST :: "8 word"

text \<open>
  Modelled from the spec: the \<open>STATE_*\<close> macros (\<open>system.h\<close>) are missing. The run state is
  the enumeration of the specification (Idle, Alarm, Check, Homing, Run, Hold, Jog, Door,
  Sleep), one value at a time, so that the source's test
  \<open>sys.state & (STATE_HOMING | STATE_CYCLE | STATE_HOLD | STATE_JOG | STATE_SAFETY_DOOR)\<close>
  is a membership test.
\<close>

datatype run_state =
  STATE_IDLE | STATE_ALARM | STATE_CHECK_MODE | STATE_HOMING | STATE_CYCLE
  | STATE_HOLD | STATE_JOG | STATE_SAFETY_DOOR | STATE_SLEEP

definition busy :: "run_state \<Rightarrow> bool" where
  "busy st = (st = STATE_HOMING \<or> st = STATE_CYCLE \<or> st = STATE_HOLD \<or> st = STATE_JOG
              \<or> st = STATE_SAFETY_DOOR)"

text \<open>
  Modelled from the spec: the declaration of \<open>sys\<close> (\<open>system.h\<close>) is missing. These are the
  fields the status report reads and writes. The two throttle counters (the
  \<open>ReportThrottleCounters\<close> of the specification) are integers: every decrement in the
  source is guarded by \<open>> 0\<close>, and the values assigned are \<open>COUNT - 1\<close> computed in \<open>int\<close>.
\<close>

record system_t =
  state :: run_state
  report_wco_counter :: int
  report_ovr_counter :: int
  f_override :: "8 word"
  r_override :: "8 word"
  spindle_speed_ovr :: "8 word"

text \<open>
  What the encoders read from \<open>settings\<close>, \<open>gc_state\<close> and the getters of other modules:
  the result of \<open>bit_istrue(settings.flags, BITFLAG_REPORT_INCHES)\<close>, the parser's offsets,
  \<open>spindle_get_state()\<close>, \<open>coolant_get_state()\<close>, the probe position as converted by
  \<open>system_convert_array_steps_to_mpos\<close>, and \<open>sys.probe_succeeded\<close>.
\<close>

record snapshot =
  report_inches :: bool
  coord_system :: "real list"
  coord_offset :: "real list"
  tool_length_offset :: real
  spindle_state :: "8 word"
  coolant_state :: "8 word"
  probe_position :: "real list"
  probe_succeeded :: "8 word"

subsection \<open>Transport\<close>

text \<open>
  Modelled from the spec: the \<open>CLIENT_*\<close> macros are missing. A client target is one of
  the three of the specification (serial line, network socket, all).
\<close>

datatype client = CLIENT_SERIAL | CLIENT_WEBSOCKET | CLIENT_ALL

datatype channel = Serial2Socket | Serial

text \<open>The writes of one call, in order.\<close>

definition grbl_send :: "client \<Rightarrow> string \<Rightarrow> (channel \<times> string) list" where
  "grbl_send cl text =
     (if cl = CLIENT_WEBSOCKET \<or> cl = CLIENT_ALL then [(Serial2Socket, text)] else []) @
     (if cl = CLIENT_SERIAL \<or> cl = CLIENT_ALL then [(Serial, text)] else [])"

subsection \<open>\<open>report_util_axis_values\<close>\<close>

definition report_util_axis_values :: "config \<Rightarrow> bool \<Rightarrow> real list \<Rightarrow> string" where
  "report_util_axis_values cfg inches axis_value =
     (let unit_conversion = (if inches then 1.0 / MM_PER_INCH cfg else 1.0) in
      foldl (\<lambda>report index.
               let axis_value_string =
                     (if inches then sprintf_f 4 4 (axis_value ! index * unit_conversion)
                      else sprintf_f 4 3 (axis_value ! index * unit_conversion));
                   report1 = report @ axis_value_string
               in if int index < int (N_AXIS cfg) - 1 then report1 @ '','' else report1)
            [] [0..<N_AXIS cfg])"





subsection \<open>\<open>report_status_message\<close>, \<open>report_probe_parameters\<close>, \<open>report_ngc_parameters\<close>\<close>





subsection \<open>The throttled fields of \<open>report_realtime_status\<close>\<close>

text \<open>
  The tail of \<open>report_realtime_status\<close>, from \<open>#ifdef REPORT_FIELD_WORK_COORD_OFFSET\<close> to the
  end. The frame built before that point (state, position, buffer, line number, feed and
  pin fields, all read from other modules) is the argument \<open>status\<close>.
\<close>

definition work_coordinate_offsets :: "config \<Rightarrow> snapshot \<Rightarrow> real list" where
  "work_coordinate_offsets cfg snap =
     map (\<lambda>index.
            let w = coord_system snap ! index + coord_offset snap ! index
            in if index = TOOL_LENGTH_OFFSET_AXIS cfg then w + tool_length_offset snap else w)
         [0..<N_AXIS cfg]"

text \<open>Each field function returns the updated \<open>sys\<close> and the text it appends to the frame.\<close>

definition wco_field :: "config \<Rightarrow> snapshot \<Rightarrow> system_t \<Rightarrow> system_t \<times> string" where
  "wco_field cfg snap s =
     (if \<not> REPORT_FIELD_WORK_COORD_OFFSET cfg then (s, [])
      else if report_wco_counter s > 0
      then (s\<lparr>report_wco_counter := report_wco_counter s - 1\<rparr>, [])
      else
        (let s1 = (if busy (state s)
                   then s\<lparr>report_wco_counter := REPORT_WCO_REFRESH_BUSY_COUNT cfg - 1\<rparr>
                   else s\<lparr>report_wco_counter := REPORT_WCO_REFRESH_IDLE_COUNT cfg - 1\<rparr>);
             s2 = (if report_ovr_counter s1 = 0 then s1\<lparr>report_ovr_counter := 1\<rparr> else s1)
         in (s2, ''|WCO:'' @
                 report_util_axis_values cfg (report_inches snap)
                   (work_coordinate_offsets cfg snap))))"

definition accessory_text :: "config \<Rightarrow> snapshot \<Rightarrow> string" where
  "accessory_text cfg snap =
     (if spindle_state snap \<noteq> 0 \<or> coolant_state snap \<noteq> 0 then
        ''|A:'' @
        (if spindle_state snap \<noteq> 0
         then (if spindle_state snap = SPINDLE_STATE_CW cfg then ''S'' else ''C'')
         else []) @
        (if coolant_state snap AND COOLANT_STATE_FLOOD cfg \<noteq> 0 then ''F'' else []) @
        (if COOLANT_MIST_PIN cfg \<and> coolant_state snap AND COOLANT_STATE_MIST cfg \<noteq> 0
         then ''M'' else [])
      else [])"

definition ovr_field :: "config \<Rightarrow> snapshot \<Rightarrow> system_t \<Rightarrow> system_t \<times> string" where
  "ovr_field cfg snap s =
     (if \<not> REPORT_FIELD_OVERRIDES cfg then (s, [])
      else if report_ovr_counter s > 0
      then (s\<lparr>report_ovr_counter := report_ovr_counter s - 1\<rparr>, [])
      else
        (let s1 = (if busy (state s)
                   then s\<lparr>report_ovr_counter := REPORT_OVR_REFRESH_BUSY_COUNT cfg - 1\<rparr>
                   else s\<lparr>report_ovr_counter := REPORT_OVR_REFRESH_IDLE_COUNT cfg - 1\<rparr>)
         in (s1, ''|Ov:'' @ sprintf_d (uint (f_override s1)) @ '','' @
                 sprintf_d (uint (r_override s1)) @ '','' @
                 sprintf_d (uint (spindle_speed_ovr s1)) @ accessory_text cfg snap)))"

definition report_realtime_status ::
  "config \<Rightarrow> snapshot \<Rightarrow> client \<Rightarrow> string \<Rightarrow> system_t \<Rightarrow> system_t \<times> (channel \<times> string) list" where
  "report_realtime_status cfg snap cl status s =
     (let (s1, wco) = wco_field cfg snap s;
          (s2, ovr) = ovr_field cfg snap s1
      in (s2, grbl_send cl (status @ wco @ ovr @ ''>'' @ CRLF)))"

text \<open>
  Observations on one invocation: the text each throttled field contributes to the frame
  (empty when the field is skipped), and \<open>sys\<close> after the call.
\<close>

definition wco_text :: "config \<Rightarrow> snapshot \<Rightarrow> system_t \<Rightarrow> string" where
  "wco_text cfg snap s = snd (wco_field cfg snap s)"

definition ovr_text :: "config \<Rightarrow> snapshot \<Rightarrow> system_t \<Rightarrow> string" where
  "ovr_text cfg snap s = snd (ovr_field cfg snap (fst (wco_field cfg snap s)))"

definition wco_emitted :: "config \<Rightarrow> snapshot \<Rightarrow> system_t \<Rightarrow> bool" where
  "wco_emitted cfg snap s = (wco_text cfg snap s \<noteq> [])"

definition ovr_emitted :: "config \<Rightarrow> snapshot \<Rightarrow> system_t \<Rightarrow> bool" where
  "ovr_emitted cfg snap s = (ovr_text cfg snap s \<noteq> [])"

definition after_report :: "config \<Rightarrow> snapshot \<Rightarrow> system_t \<Rightarrow> system_t" where
  "after_report cfg snap s = fst (report_realtime_status cfg snap CLIENT_ALL [] s)"

text \<open>\<open>n\<close> consecutive invocations; nothing else writes \<open>sys\<close> in between.\<close>

primrec after_reports :: "config \<Rightarrow> snapshot \<Rightarrow> nat \<Rightarrow> system_t \<Rightarrow> system_t" where
  "after_reports cfg snap 0 s = s"
| "after_reports cfg snap (Suc n) s = after_reports cfg snap n (after_report cfg snap s)"

text \<open>Whether the override field is emitted in each of \<open>n\<close> consecutive invocations.\<close>

primrec ovr_trace :: "config \<Rightarrow> snapshot \<Rightarrow> nat \<Rightarrow> system_t \<Rightarrow> bool list" where
  "ovr_trace cfg snap 0 s = []"
| "ovr_trace cfg snap (Suc n) s =
     ovr_emitted cfg snap s # ovr_trace cfg snap n (after_report cfg snap s)"

subsection \<open>A concrete configuration\<close>

text \<open>
  Three axes, eight stored coordinate frames, both throttled fields compiled in, and
  refresh counts of 30 (busy) and 10 (idle) for the work offsets, 20 and 10 for the
  overrides.
\<close>

definition example_config :: config where
  "example_config =
     \<lparr>N_AXIS = 3, MM_PER_INCH = 25.4, INCH_PER_MM = 0.0393701, TOOL_LENGTH_OFFSET_AXIS = 2,
      SETTING_INDEX_NCOORD = 7, STATUS_OK = 0, STATUS_SETTING_READ_FAIL = 7,
      REPORT_FIELD_WORK_COORD_OFFSET = True, REPORT_FIELD_OVERRIDES = True,
      COOLANT_MIST_PIN = False,
      REPORT_WCO_REFRESH_BUSY_COUNT = 30, REPORT_WCO_REFRESH_IDLE_COUNT = 10,
      REPORT_OVR_REFRESH_BUSY_COUNT = 20, REPORT_OVR_REFRESH_IDLE_COUNT = 10,
      SPINDLE_STATE_CW = 1, COOLANT_STATE_FLOOD = 1, COOLANT_STATE_MIST = 2\<rparr>"

definition example_snapshot :: snapshot where
  "example_snapshot =
     \<lparr>report_inches = False, coord_system = [10, 20, 0], coord_offset = [0, 0, 0],
      tool_length_offset = 1.5, spindle_state = 0, coolant_state = 0,
      probe_position = [0, 0, 0], probe_succeeded = 0\<rparr>"

text \<open>\<open>sys\<close> after a controller reset, in a given run state: both counters are zero.\<close>

definition sys_reset :: "run_state \<Rightarrow> system_t" where
  "sys_reset st =
     \<lparr>state = st, report_wco_counter = 0, report_ovr_counter = 0,
      f_override = 100, r_override = 100, spindle_speed_ovr = 100\<rparr>"

section \<open>Properties of the decoder\<close>

subsection \<open>Characters and the scan loop\<close>

lemma digit_code: "is_digit ch \<Longrightarrow> (of_char ch :: 8 word) - 48 = of_nat (digit_val ch) \<and> digit_val ch \<le> 9"
  by (auto simp: is_digit_def digit_val_def)

lemma digit_le: "is_digit ch \<Longrightarrow> (of_char ch :: 8 word) - 48 \<le> 9"
  by (auto simp: is_digit_def)

lemma digit_not_sign: "is_digit ch \<Longrightarrow> ch \<noteq> CHR ''-'' \<and> ch \<noteq> CHR ''+'' \<and> ch \<noteq> CHR ''.''"
  by (auto simp: is_digit_def)

lemma word8_digit_range:
  assumes "n < 256" and "(word_of_nat n :: 8 word) - 48 \<le> 9"
  shows "48 \<le> n \<and> n \<le> 57"
proof -
  have u: "unat (word_of_nat n :: 8 word) = n" using assms(1) by (simp add: unat_of_nat)
  from assms(2) have "unat ((word_of_nat n :: 8 word) - 48) \<le> 9"
    by (simp add: word_le_nat_alt)
  then show ?thesis using u assms(1)
    by (auto simp: unat_sub_if' split: if_splits)
qed

lemma code_is_digit:
  assumes "of_char ch = (n::nat)" and "48 \<le> n" and "n \<le> 57"
  shows "is_digit ch"
proof -
  have "n = 48 \<or> n = 49 \<or> n = 50 \<or> n = 51 \<or> n = 52 \<or> n = 53 \<or> n = 54 \<or> n = 55 \<or> n = 56 \<or> n = 57"
    using assms(2,3) by arith
  then have "of_char ch = (of_char CHR ''0'' :: nat) \<or> of_char ch = (of_char CHR ''1'' :: nat)
      \<or> of_char ch = (of_char CHR ''2'' :: nat) \<or> of_char ch = (of_char CHR ''3'' :: nat)
      \<or> of_char ch = (of_char CHR ''4'' :: nat) \<or> of_char ch = (of_char CHR ''5'' :: nat)
      \<or> of_char ch = (of_char CHR ''6'' :: nat) \<or> of_char ch = (of_char CHR ''7'' :: nat)
      \<or> of_char ch = (of_char CHR ''8'' :: nat) \<or> of_char ch = (of_char CHR ''9'' :: nat)"
    using assms(1) by simp
  then show ?thesis
    unfolding of_char_eq_iff by (auto simp: is_digit_def)
qed

lemma nondigit_gt:
  assumes "\<not> is_digit ch"
  shows "\<not> (of_char ch :: 8 word) - 48 \<le> 9"
proof
  assume a: "(of_char ch :: 8 word) - 48 \<le> 9"
  define n :: nat where "n = of_char ch"
  have lt: "n < 256" by (simp add: n_def)
  have w: "(of_char ch :: 8 word) = word_of_nat n" by (simp add: n_def of_nat_of_char)
  have rng: "48 \<le> n \<and> n \<le> 57" using word8_digit_range [OF lt] a w by simp
  have "is_digit ch" using code_is_digit [of ch n] rng by (simp add: n_def)
  with assms show False by simp
qed

lemma accept_digit_low:
  assumes "k < 8" and "v \<le> 9"
  shows "accept_digit (word_of_nat v) \<lparr>integer_value = word_of_nat a, exponent = e, num_digits = word_of_nat k, is_decimal = d\<rparr>
       = \<lparr>integer_value = word_of_nat (10 * a + v), exponent = (if d then e - 1 else e),
          num_digits = word_of_nat (k + 1), is_decimal = d\<rparr>"
proof -
  have e1: "(word_of_nat k + 1 :: 8 word) = word_of_nat (k + 1)" by simp
  have e2: "unat (word_of_nat (k + 1) :: 8 word) = k + 1"
    by (subst unat_of_nat) (use assms in simp)
  have le: "(word_of_nat k + 1 :: 8 word) \<le> 8"
    unfolding e1 word_le_nat_alt e2 using assms by simp
  have tb: "take_bit 8 v = v" using assms(2) by (simp add: take_bit_nat_eq_self)
  show ?thesis using le tb
    by (simp add: accept_digit_def MAX_INT_DIGITS_def push_bit_eq_mult unsigned_of_nat)
qed

lemma accept_digit_high:
  assumes "8 \<le> k" and "k < 255"
  shows "accept_digit c \<lparr>integer_value = iv, exponent = e, num_digits = word_of_nat k, is_decimal = d\<rparr>
       = \<lparr>integer_value = iv, exponent = (if d then e else e + 1),
          num_digits = word_of_nat (k + 1), is_decimal = d\<rparr>"
proof -
  have e1: "(word_of_nat k + 1 :: 8 word) = word_of_nat (k + 1)" by simp
  have e2: "unat (word_of_nat (k + 1) :: 8 word) = k + 1"
    by (subst unat_of_nat) (use assms in simp)
  have le: "\<not> (word_of_nat k + 1 :: 8 word) \<le> 8"
    unfolding e1 word_le_nat_alt e2 using assms by simp
  show ?thesis using le
    by (simp add: accept_digit_def MAX_INT_DIGITS_def)
qed

lemma scan_digits_low:
  "\<forall>c\<in>set ds. is_digit c \<Longrightarrow> k + length ds \<le> 8 \<Longrightarrow>
   scan_number (ds @ rest) p \<lparr>integer_value = word_of_nat a, exponent = e, num_digits = word_of_nat k, is_decimal = d\<rparr>
   = scan_number rest (p + length ds)
       \<lparr>integer_value = word_of_nat (digits_acc a ds),
        exponent = (if d then e - word_of_nat (length ds) else e),
        num_digits = word_of_nat (k + length ds), is_decimal = d\<rparr>"
proof (induction ds arbitrary: a e k p)
  case Nil
  then show ?case by simp
next
  case (Cons ch ds)
  have dg: "is_digit ch" using Cons.prems by simp
  have k8: "k < 8" using Cons.prems by simp
  note dc = digit_code [OF dg]
  have step: "scan_number ((ch # ds) @ rest) p \<lparr>integer_value = word_of_nat a, exponent = e, num_digits = word_of_nat k, is_decimal = d\<rparr>
     = scan_number (ds @ rest) (p + 1) \<lparr>integer_value = word_of_nat (10 * a + digit_val ch), exponent = (if d then e - 1 else e),
          num_digits = word_of_nat (k + 1), is_decimal = d\<rparr>"
    using digit_le [OF dg] dc accept_digit_low [OF k8, of "digit_val ch" a e d] by simp
  have ih: "scan_number (ds @ rest) (p + 1) \<lparr>integer_value = word_of_nat (10 * a + digit_val ch), exponent = (if d then e - 1 else e),
          num_digits = word_of_nat (k + 1), is_decimal = d\<rparr>
      = scan_number rest (p + 1 + length ds)
       \<lparr>integer_value = word_of_nat (digits_acc (10 * a + digit_val ch) ds),
        exponent = (if d then (if d then e - 1 else e) - word_of_nat (length ds) else (if d then e - 1 else e)),
        num_digits = word_of_nat (k + 1 + length ds), is_decimal = d\<rparr>"
    using Cons.prems by (intro Cons.IH) auto
  show ?case unfolding step ih by (simp add: algebra_simps)
qed

lemma scan_digits_high:
  "\<forall>c\<in>set ds. is_digit c \<Longrightarrow> 8 \<le> k \<Longrightarrow> k + length ds \<le> 255 \<Longrightarrow>
   scan_number (ds @ rest) p \<lparr>integer_value = iv, exponent = e, num_digits = word_of_nat k, is_decimal = d\<rparr>
   = scan_number rest (p + length ds)
       \<lparr>integer_value = iv,
        exponent = (if d then e else e + word_of_nat (length ds)),
        num_digits = word_of_nat (k + length ds), is_decimal = d\<rparr>"
proof (induction ds arbitrary: e k p)
  case Nil
  then show ?case by simp
next
  case (Cons ch ds)
  have dg: "is_digit ch" using Cons.prems by simp
  have k8: "8 \<le> k" "k < 255" using Cons.prems by simp_all
  have step: "scan_number ((ch # ds) @ rest) p \<lparr>integer_value = iv, exponent = e, num_digits = word_of_nat k, is_decimal = d\<rparr>
     = scan_number (ds @ rest) (p + 1) \<lparr>integer_value = iv, exponent = (if d then e else e + 1),
          num_digits = word_of_nat (k + 1), is_decimal = d\<rparr>"
    using digit_le [OF dg] accept_digit_high [OF k8, of _ iv e d] by simp
  have ih: "scan_number (ds @ rest) (p + 1) \<lparr>integer_value = iv, exponent = (if d then e else e + 1),
          num_digits = word_of_nat (k + 1), is_decimal = d\<rparr>
      = scan_number rest (p + 1 + length ds)
       \<lparr>integer_value = iv,
        exponent = (if d then (if d then e else e + 1) else (if d then e else e + 1) + word_of_nat (length ds)),
        num_digits = word_of_nat (k + 1 + length ds), is_decimal = d\<rparr>"
    using Cons.prems by (intro Cons.IH) auto
  show ?case unfolding step ih by (simp add: algebra_simps)
qed


lemma digits_acc_append: "digits_acc a (xs @ ys) = digits_acc (digits_acc a xs) ys"
  by (induction xs arbitrary: a) auto

lemma digits_acc_bound:
  "\<forall>c\<in>set ds. is_digit c \<Longrightarrow> digits_acc a ds < (a + 1) * 10 ^ length ds"
proof (induction ds arbitrary: a)
  case Nil
  then show ?case by simp
next
  case (Cons ch ds)
  have d9: "digit_val ch \<le> 9" using Cons.prems digit_code [of ch] by simp
  have "digits_acc (10 * a + digit_val ch) ds < (10 * a + digit_val ch + 1) * 10 ^ length ds"
    using Cons.prems by (intro Cons.IH) simp
  also have "\<dots> \<le> (10 * a + 10) * 10 ^ length ds"
    using d9 by (intro mult_right_mono) auto
  finally show ?case by (simp add: algebra_simps)
qed

lemma scan_digits_any:
  assumes dg: "\<forall>c\<in>set ds. is_digit c" and le: "k + length ds \<le> 255"
  shows "scan_number (ds @ rest) p
           \<lparr>integer_value = word_of_nat a, exponent = e, num_digits = word_of_nat k, is_decimal = d\<rparr>
       = scan_number rest (p + length ds)
           \<lparr>integer_value = word_of_nat (digits_acc a (take (8 - k) ds)),
            exponent = (if d then e - word_of_nat (min (length ds) (8 - k))
                        else e + word_of_nat (length ds - (8 - k))),
            num_digits = word_of_nat (k + length ds), is_decimal = d\<rparr>"
proof -
  define lo where "lo = take (8 - k) ds"
  define hi where "hi = drop (8 - k) ds"
  have split: "ds = lo @ hi" by (simp add: lo_def hi_def)
  have dlo: "\<forall>c\<in>set lo. is_digit c" using dg by (auto simp: lo_def dest: in_set_takeD)
  have dhi: "\<forall>c\<in>set hi. is_digit c" using dg by (auto simp: hi_def dest: in_set_dropD)
  show ?thesis
  proof (cases "hi = []")
    case True
    then have all: "lo = ds" using split by simp
    have len: "length ds \<le> 8 - k" using all by (simp add: lo_def)
    show ?thesis
    proof (cases "ds = []")
      case True
      then show ?thesis by simp
    next
      case False
      then have "k + length ds \<le> 8" using len by (cases ds) auto
      from scan_digits_low [OF dg this, of rest p a e d] show ?thesis
        using len all by (simp add: lo_def min_absorb1)
    qed
  next
    case False
    then have long: "8 - k < length ds" by (simp add: hi_def)
    have lenlo: "length lo = 8 - k" using long by (simp add: lo_def)
    have lenhi: "length hi = length ds - (8 - k)" by (simp add: hi_def)
    show ?thesis
    proof (cases "8 \<le> k")
      case True
      then have "lo = []" by (simp add: lo_def)
      then have hd: "hi = ds" using split by simp
      from scan_digits_high [OF dg True le, of rest p "word_of_nat a" e d] show ?thesis
        using True by (simp add: lo_def)
    next
      case k8: False
      then have low: "k + length lo \<le> 8" and eq8: "k + length lo = 8" by (simp_all add: lenlo)
      have le2: "8 + length hi \<le> 255" using le lenhi k8 by simp
      have s1: "scan_number (lo @ hi @ rest) p
           \<lparr>integer_value = word_of_nat a, exponent = e, num_digits = word_of_nat k, is_decimal = d\<rparr>
         = scan_number (hi @ rest) (p + length lo)
           \<lparr>integer_value = word_of_nat (digits_acc a lo),
            exponent = (if d then e - word_of_nat (length lo) else e),
            num_digits = word_of_nat 8, is_decimal = d\<rparr>"
        using scan_digits_low [OF dlo low, of "hi @ rest" p a e d] eq8 by simp
      have s2: "scan_number (hi @ rest) (p + length lo)
           \<lparr>integer_value = word_of_nat (digits_acc a lo),
            exponent = (if d then e - word_of_nat (length lo) else e),
            num_digits = word_of_nat 8, is_decimal = d\<rparr>
         = scan_number rest (p + length lo + length hi)
           \<lparr>integer_value = word_of_nat (digits_acc a lo),
            exponent = (if d then (if d then e - word_of_nat (length lo) else e)
                        else (if d then e - word_of_nat (length lo) else e) + word_of_nat (length hi)),
            num_digits = word_of_nat (8 + length hi), is_decimal = d\<rparr>"
        by (rule scan_digits_high [OF dhi _ le2]) simp
      have lens: "length lo + length hi = length ds" using split by (metis length_append)
      have m: "min (length ds) (8 - k) = length lo" using long lenlo by simp
      have n8: "8 + length hi = k + length ds" using eq8 lens by simp
      have "scan_number (ds @ rest) p
           \<lparr>integer_value = word_of_nat a, exponent = e, num_digits = word_of_nat k, is_decimal = d\<rparr>
         = scan_number rest (p + length lo + length hi)
           \<lparr>integer_value = word_of_nat (digits_acc a lo),
            exponent = (if d then (if d then e - word_of_nat (length lo) else e)
                        else (if d then e - word_of_nat (length lo) else e) + word_of_nat (length hi)),
            num_digits = word_of_nat (8 + length hi), is_decimal = d\<rparr>"
        using s1 s2 split by simp
      then show ?thesis
        unfolding n8 m lenhi [symmetric] lo_def [symmetric]
        using lens by (simp add: add.assoc)
    qed
  qed
qed

lemma unat_of_char_word8: "unat (of_char c :: 8 word) = of_char c"
proof -
  have "(of_char c :: 8 word) = word_of_nat (of_char c)" by (simp add: of_nat_of_char)
  then have "unat (of_char c :: 8 word) = (of_char c :: nat) mod 256"
    by (simp only: unat_of_nat) simp
  then show ?thesis by simp
qed

lemma of_char_word8_inj: "(of_char a :: 8 word) = of_char b \<Longrightarrow> a = b"
proof -
  assume "(of_char a :: 8 word) = of_char b"
  then have "unat (of_char a :: 8 word) = unat (of_char b :: 8 word)" by simp
  then have "(of_char a :: nat) = of_char b" by (simp only: unat_of_char_word8)
  then show "a = b" by simp
qed

lemma scan_stop:
  assumes "ends_scan (is_decimal s) rest"
  shows "scan_number rest p s = (p, s)"
proof (cases rest)
  case Nil
  then show ?thesis by simp
next
  case (Cons ch more)
  then have nd: "\<not> is_digit ch" and np: "is_decimal s \<or> ch \<noteq> CHR ''.''"
    using assms by (simp_all add: ends_scan_def)
  have c9: "\<not> (of_char ch :: 8 word) - 48 \<le> 9" using nondigit_gt [OF nd] .
  have pt: "(of_char ch :: 8 word) - 48 = 254 \<Longrightarrow> ch = CHR ''.''"
  proof -
    assume "(of_char ch :: 8 word) - 48 = 254"
    then have "(of_char ch :: 8 word) = of_char CHR ''.''" by simp
    then show "ch = CHR ''.''" by (rule of_char_word8_inj)
  qed
  show ?thesis using c9 np pt Cons by auto
qed

lemma scan_numeral:
  assumes dg: "\<forall>c\<in>set (ip @ fp). is_digit c"
    and dotfp: "fp \<noteq> [] \<longrightarrow> dot"
    and len: "length ip + length fp \<le> 255"
    and stop: "ends_scan dot rest"
  shows "scan_number (ip @ (if dot then CHR ''.'' # fp else []) @ rest) p scan_init
       = (p + length ip + (if dot then 1 + length fp else 0),
          \<lparr>integer_value = word_of_nat (digits_value (take 8 (ip @ fp))),
           exponent = (if 8 \<le> length ip then word_of_nat (length ip - 8)
                       else - word_of_nat (min (length fp) (8 - length ip))),
           num_digits = word_of_nat (length ip + length fp),
           is_decimal = dot\<rparr>)"
proof -
  have dip: "\<forall>c\<in>set ip. is_digit c" and dfp: "\<forall>c\<in>set fp. is_digit c" using dg by auto
  have lip: "0 + length ip \<le> 255" using len by simp
  have init: "scan_init = \<lparr>integer_value = word_of_nat 0, exponent = 0, num_digits = word_of_nat 0, is_decimal = False\<rparr>"
    by (simp add: scan_init_def)
  have s1: "scan_number (ip @ R) p scan_init
      = scan_number R (p + length ip)
          \<lparr>integer_value = word_of_nat (digits_acc 0 (take 8 ip)),
           exponent = word_of_nat (length ip - 8),
           num_digits = word_of_nat (length ip), is_decimal = False\<rparr>" for R
    unfolding init using scan_digits_any [OF dip lip, of R p 0 0 False] by simp
  show ?thesis
  proof (cases dot)
    case False
    then have fp: "fp = []" using dotfp by auto
    have "scan_number rest (p + length ip)
          \<lparr>integer_value = word_of_nat (digits_acc 0 (take 8 ip)),
           exponent = word_of_nat (length ip - 8),
           num_digits = word_of_nat (length ip), is_decimal = False\<rparr>
        = (p + length ip, \<lparr>integer_value = word_of_nat (digits_acc 0 (take 8 ip)),
           exponent = word_of_nat (length ip - 8),
           num_digits = word_of_nat (length ip), is_decimal = False\<rparr>)"
      by (rule scan_stop) (use stop False in simp)
    then show ?thesis using s1 [of rest] False fp by (auto simp: digits_value_def)
  next
    case True
    have lfp: "length ip + length fp \<le> 255" using len .
    have pt: "scan_number (CHR ''.'' # fp @ rest) (p + length ip)
          \<lparr>integer_value = word_of_nat (digits_acc 0 (take 8 ip)),
           exponent = word_of_nat (length ip - 8),
           num_digits = word_of_nat (length ip), is_decimal = False\<rparr>
       = scan_number (fp @ rest) (p + length ip + 1)
          \<lparr>integer_value = word_of_nat (digits_acc 0 (take 8 ip)),
           exponent = word_of_nat (length ip - 8),
           num_digits = word_of_nat (length ip), is_decimal = True\<rparr>"
      by simp
    have s2: "scan_number (fp @ rest) (p + length ip + 1)
          \<lparr>integer_value = word_of_nat (digits_acc 0 (take 8 ip)),
           exponent = word_of_nat (length ip - 8),
           num_digits = word_of_nat (length ip), is_decimal = True\<rparr>
       = scan_number rest (p + length ip + 1 + length fp)
          \<lparr>integer_value = word_of_nat (digits_acc (digits_acc 0 (take 8 ip)) (take (8 - length ip) fp)),
           exponent = word_of_nat (length ip - 8) - word_of_nat (min (length fp) (8 - length ip)),
           num_digits = word_of_nat (length ip + length fp), is_decimal = True\<rparr>"
      using scan_digits_any [OF dfp lfp, of rest "p + length ip + 1" "digits_acc 0 (take 8 ip)"
          "word_of_nat (length ip - 8)" True] by simp
    have s3: "scan_number rest (p + length ip + 1 + length fp)
          \<lparr>integer_value = word_of_nat (digits_acc (digits_acc 0 (take 8 ip)) (take (8 - length ip) fp)),
           exponent = word_of_nat (length ip - 8) - word_of_nat (min (length fp) (8 - length ip)),
           num_digits = word_of_nat (length ip + length fp), is_decimal = True\<rparr>
       = (p + length ip + 1 + length fp,
          \<lparr>integer_value = word_of_nat (digits_acc (digits_acc 0 (take 8 ip)) (take (8 - length ip) fp)),
           exponent = word_of_nat (length ip - 8) - word_of_nat (min (length fp) (8 - length ip)),
           num_digits = word_of_nat (length ip + length fp), is_decimal = True\<rparr>)"
      by (rule scan_stop) (use stop True in simp)
    have iv: "digits_acc (digits_acc 0 (take 8 ip)) (take (8 - length ip) fp) = digits_value (take 8 (ip @ fp))"
      by (simp add: digits_value_def digits_acc_append)
    have ex: "(word_of_nat (length ip - 8) - word_of_nat (min (length fp) (8 - length ip)) :: 8 word)
       = (if 8 \<le> length ip then word_of_nat (length ip - 8)
                       else - word_of_nat (min (length fp) (8 - length ip)))"
      by simp
    show ?thesis using s1 [of "CHR ''.'' # fp @ rest"] pt s2 s3 True
      unfolding iv ex by simp
  qed
qed

lemma scale_down_result:
  "e \<le> 0 \<Longrightarrow> (case scale_down f e of (f', e') \<Rightarrow> e \<le> e' \<and> (e' = 0 \<or> e' = - 1) \<and> f' = f / 10 ^ nat (e' - e))"
proof (induction f e rule: scale_down.induct)
  case (1 f e)
  show ?case
  proof (cases "e \<le> - 2")
    case True
    obtain f' e' where r: "scale_down (f * 0.01) (e + 2) = (f', e')" by (cases "scale_down (f * 0.01) (e + 2)")
    have ih: "e + 2 \<le> e' \<and> (e' = 0 \<or> e' = - 1) \<and> f' = f * 0.01 / 10 ^ nat (e' - (e + 2))"
      using "1.IH" [OF True] True r by simp
    have n: "nat (e' - e) = Suc (Suc (nat (e' - (e + 2))))" using ih by arith
    have "scale_down f e = (f', e')" using True r by (subst scale_down.simps) simp
    then show ?thesis using ih n by (simp add: field_simps)
  next
    case False
    then have "scale_down f e = (f, e)" by (subst scale_down.simps) simp
    then show ?thesis using False "1.prems" by auto
  qed
qed


lemma apply_decimal_neg: "e \<le> 0 \<Longrightarrow> apply_decimal f e = f / 10 ^ nat (- e)"
proof -
  assume e: "e \<le> 0"
  obtain f' e' where r: "scale_down f e = (f', e')" by (cases "scale_down f e")
  have inv: "e \<le> e' \<and> (e' = 0 \<or> e' = - 1) \<and> f' = f / 10 ^ nat (e' - e)"
    using scale_down_result [OF e, of f] r by simp
  show ?thesis
  proof (cases "e' = 0")
    case True
    then show ?thesis using inv r by (simp add: apply_decimal_def)
  next
    case False
    then have e1: "e' = - 1" using inv by simp
    have n: "nat (- e) = Suc (nat (- 1 - e))" using inv e1 by arith
    show ?thesis using inv r e1 n by (simp add: apply_decimal_def field_simps)
  qed
qed


subsection \<open>The whole decoder\<close>

lemma read_float_scan:
  assumes sg: "sign = [] \<or> sign = ''+'' \<or> sign = ''-''"
    and bd: "sign = [] \<longrightarrow> (case body of [] \<Rightarrow> True | ch # _ \<Rightarrow> ch \<noteq> CHR ''-'' \<and> ch \<noteq> CHR ''+'')"
    and pre: "length pre \<le> 255"
    and sc: "scan_number body (length pre + length sign) scan_init = (p2, s)"
  shows "read_float (pre @ sign @ body) (word_of_nat (length pre)) old
       = (if num_digits s = 0 then (False, word_of_nat (length pre), old)
          else (True, word_of_nat p2,
                if sign = ''-''
                then - apply_decimal (real (unat (integer_value s))) (sint (exponent s))
                else apply_decimal (real (unat (integer_value s))) (sint (exponent s))))"
proof -
  have u: "unat (word_of_nat (length pre) :: 8 word) = length pre"
    by (subst unat_of_nat) (use pre in simp)
  have dr: "drop (length pre) (pre @ sign @ body) = sign @ body" by simp
  from sg show ?thesis
  proof (elim disjE)
    assume e: "sign = []"
    show ?thesis
    proof (cases body)
      case Nil
      then show ?thesis using sc e u by (simp add: read_float_def)
    next
      case (Cons ch rest)
      then have "ch \<noteq> CHR ''-''" "ch \<noteq> CHR ''+''" using bd e by simp_all
      then show ?thesis using sc e u Cons by (simp add: read_float_def)
    qed
  next
    assume e: "sign = ''+''"
    show ?thesis using sc e u by (simp add: read_float_def)
  next
    assume e: "sign = ''-''"
    show ?thesis using sc e u by (simp add: read_float_def)
  qed
qed

lemma numeral_body_no_sign:
  assumes dg: "\<forall>c\<in>set (ip @ fp). is_digit c" and ne: "ip @ fp \<noteq> []" and dotfp: "fp \<noteq> [] \<longrightarrow> dot"
  shows "case ip @ (if dot then CHR ''.'' # fp else []) @ rest of [] \<Rightarrow> True
         | ch # _ \<Rightarrow> ch \<noteq> CHR ''-'' \<and> ch \<noteq> CHR ''+''"
proof (cases ip)
  case Nil
  then have "fp \<noteq> []" using ne by simp
  then have "dot" using dotfp by simp
  then show ?thesis using Nil by simp
next
  case (Cons ch more)
  then have "is_digit ch" using dg by simp
  then show ?thesis using Cons digit_not_sign [of ch] by simp
qed

lemma num_digits_nonzero:
  assumes "0 < n" and "n \<le> 255"
  shows "(word_of_nat n :: 8 word) \<noteq> 0"
proof
  assume "(word_of_nat n :: 8 word) = 0"
  then have "unat (word_of_nat n :: 8 word) = 0" by simp
  then have "n mod 256 = 0" by (simp only: unat_of_nat) simp
  then show False using assms by simp
qed

lemma read_float_numeral:
  assumes sg: "sign = [] \<or> sign = ''+'' \<or> sign = ''-''"
    and dg: "\<forall>c\<in>set (ip @ fp). is_digit c"
    and ne: "ip @ fp \<noteq> []"
    and dotfp: "fp \<noteq> [] \<longrightarrow> dot"
    and stop: "ends_scan dot rest"
    and fits: "length (pre @ numeral_text sign ip dot fp) \<le> 255"
  shows "read_float (pre @ numeral_text sign ip dot fp @ rest) (word_of_nat (length pre)) old
       = (True, word_of_nat (length (pre @ numeral_text sign ip dot fp)),
          (if sign = ''-'' then - 1 else 1) *
          apply_decimal (real (unat (word_of_nat (digits_value (take 8 (ip @ fp))) :: 32 word)))
            (sint (if 8 \<le> length ip then word_of_nat (length ip - 8)
                   else - word_of_nat (min (length fp) (8 - length ip)) :: 8 word)))"
proof -
  define body where "body = ip @ (if dot then CHR ''.'' # fp else []) @ rest"
  have line: "pre @ numeral_text sign ip dot fp @ rest = pre @ sign @ body"
    by (simp add: numeral_text_def body_def)
  have len: "length ip + length fp \<le> 255" using fits dotfp by (auto simp: numeral_text_def split: if_splits)
  have pre: "length pre \<le> 255" using fits by simp
  have pos: "0 < length ip + length fp" using ne by (cases ip) auto
  note sc = scan_numeral [OF dg dotfp len stop, of "length pre + length sign", folded body_def]
  have bd: "sign = [] \<longrightarrow> (case body of [] \<Rightarrow> True | ch # _ \<Rightarrow> ch \<noteq> CHR ''-'' \<and> ch \<noteq> CHR ''+'')"
    unfolding body_def using numeral_body_no_sign [OF dg ne dotfp] by simp
  have nz: "(word_of_nat (length ip + length fp) :: 8 word) \<noteq> 0"
    using num_digits_nonzero [OF pos len] .
  have p2: "length pre + length sign + length ip + (if dot then 1 + length fp else 0)
      = length (pre @ numeral_text sign ip dot fp)"
    by (simp add: numeral_text_def)
  show ?thesis
    unfolding line read_float_scan [OF sg bd pre sc] using nz p2
    by (simp add: numeral_text_def)
qed

lemma sint_neg_small:
  assumes "n \<le> 127"
  shows "sint (- word_of_nat n :: 8 word) = - int n"
proof -
  have "(- word_of_nat n :: 8 word) = word_of_int (- int n)" by simp
  then have "sint (- word_of_nat n :: 8 word) = signed_take_bit 7 (- int n)"
    by (simp only: signed_of_int) simp
  also have "\<dots> = - int n"
    by (rule signed_take_bit_int_eq_self) (use assms in simp_all)
  finally show ?thesis .
qed

lemma unat_small_value:
  assumes "\<forall>c\<in>set ds. is_digit c" and "length ds \<le> 8"
  shows "unat (word_of_nat (digits_value ds) :: 32 word) = digits_value ds"
proof -
  have "digits_value ds < 1 * 10 ^ length ds"
    using digits_acc_bound [OF assms(1), of 0] by (simp add: digits_value_def)
  also have "\<dots> \<le> 1 * (10::nat) ^ 8"
    using assms(2) by (intro mult_left_mono power_increasing) auto
  finally have "digits_value ds < 2 ^ 32" by simp
  then show ?thesis by (subst unat_of_nat) simp
qed

lemma read_float_numeral_capped:
  assumes sg: "sign = [] \<or> sign = ''+'' \<or> sign = ''-''"
    and dg: "\<forall>c\<in>set (ip @ fp). is_digit c"
    and ne: "ip @ fp \<noteq> []"
    and dotfp: "fp \<noteq> [] \<longrightarrow> dot"
    and cap: "length ip + length fp \<le> 8"
    and stop: "ends_scan dot rest"
    and fits: "length (pre @ numeral_text sign ip dot fp) \<le> 255"
  shows "read_float (pre @ numeral_text sign ip dot fp @ rest) (word_of_nat (length pre)) old
       = (True, word_of_nat (length (pre @ numeral_text sign ip dot fp)),
          (if sign = ''-'' then - 1 else 1) * (real (digits_value (ip @ fp)) / 10 ^ length fp))"
proof -
  have tk: "take 8 (ip @ fp) = ip @ fp" using cap by simp
  have un: "unat (word_of_nat (digits_value (ip @ fp)) :: 32 word) = digits_value (ip @ fp)"
    using unat_small_value [OF dg] cap by simp
  have ex: "sint (if 8 \<le> length ip then word_of_nat (length ip - 8)
                   else - word_of_nat (min (length fp) (8 - length ip)) :: 8 word) = - int (length fp)"
  proof (cases "8 \<le> length ip")
    case True
    have lf: "length fp = 0" using cap True by arith
    have li: "length ip - 8 = 0" using cap True by arith
    show ?thesis using True lf li by simp
  next
    case False
    then have m: "min (length fp) (8 - length ip) = length fp" using cap by simp
    have "length fp \<le> 127" using cap by simp
    then show ?thesis using False m sint_neg_small [of "length fp"] by simp
  qed
  have ad: "apply_decimal (real (digits_value (ip @ fp))) (- int (length fp))
      = real (digits_value (ip @ fp)) / 10 ^ length fp"
    by (subst apply_decimal_neg) simp_all
  show ?thesis
    unfolding read_float_numeral [OF sg dg ne dotfp stop fits] tk un ex ad by simp
qed

lemma scan_no_digit:
  assumes "case skip_point txt of [] \<Rightarrow> True | ch # _ \<Rightarrow> \<not> is_digit ch"
  shows "num_digits (snd (scan_number txt p scan_init)) = 0"
proof (cases "txt")
  case Nil
  then show ?thesis by (simp add: scan_init_def)
next
  case (Cons ch rest)
  show ?thesis
  proof (cases "ch = CHR ''.''")
    case True
    then have "ends_scan True rest" using assms Cons
      by (auto simp: skip_point_def ends_scan_def split: list.splits)
    then have "scan_number rest (p + 1) (scan_init\<lparr>is_decimal := True\<rparr>) = (p + 1, scan_init\<lparr>is_decimal := True\<rparr>)"
      by (intro scan_stop) simp
    then show ?thesis using Cons True by (simp add: scan_init_def)
  next
    case False
    then have "ends_scan False txt" using assms Cons
      by (auto simp: skip_point_def ends_scan_def split: list.splits)
    then have "scan_number txt p scan_init = (p, scan_init)"
      by (intro scan_stop) (simp add: scan_init_def)
    then show ?thesis by (simp add: scan_init_def)
  qed
qed

lemma read_float_skip_sign:
  "read_float line char_counter float_ptr =
     (let txt = drop (unat char_counter) line;
          p1 = (if txt = skip_sign txt then unat char_counter else unat char_counter + 1);
          s = snd (scan_number (skip_sign txt) p1 scan_init);
          p2 = fst (scan_number (skip_sign txt) p1 scan_init);
          v = apply_decimal (real (unat (integer_value s))) (sint (exponent s))
      in if num_digits s = 0 then (False, char_counter, float_ptr)
         else (True, word_of_nat p2,
               if (case txt of [] \<Rightarrow> False | ch # _ \<Rightarrow> ch = CHR ''-'') then - v else v))"
  by (cases "drop (unat char_counter) line")
     (auto simp: read_float_def skip_sign_def Let_def split: prod.splits)



subsection \<open>Claims about the decoder\<close>

text \<open>
  Claim C2, as amended. Let the text at the cursor be an optional sign, a non-empty run of
  digits, and optionally a decimal point with further digits, eight digits at most in
  total (leading zeros count), followed by the end of the line or a character that ends
  the scan, and let the numeral end within the first 255 characters of the line. Then
  \<open>read_float\<close> succeeds, the value is the value of the numeral (exactly, in real
  arithmetic), and the cursor returned is the index of the first character not consumed.
\<close>

theorem read_float_decodes_numeral:
  assumes "sign = [] \<or> sign = ''+'' \<or> sign = ''-''"
    and "\<forall>c\<in>set (ip @ fp). is_digit c"
    and "ip \<noteq> []"
    and "fp \<noteq> [] \<longrightarrow> dot"
    and "length ip + length fp \<le> 8"
    and "ends_scan dot rest"
    and "length (pre @ numeral_text sign ip dot fp) \<le> 255"
  shows "read_float (pre @ numeral_text sign ip dot fp @ rest) (word_of_nat (length pre)) old
       = (True, word_of_nat (length (pre @ numeral_text sign ip dot fp)),
          (if sign = ''-'' then - 1 else 1) * (real (digits_value (ip @ fp)) / 10 ^ length fp))"
  using assms by (intro read_float_numeral_capped) simp_all

text \<open>The scenarios of the claim: \<open>"X12.345 "\<close> after the \<open>X\<close>, and \<open>"+5"\<close> against \<open>"5"\<close>.\<close>

theorem read_float_decodes_numeral_witness:
  "read_float ''X12.345 '' 1 0 = (True, 7, 12.345)
   \<and> snd (snd (read_float ''+5'' 0 0)) = 5
   \<and> snd (snd (read_float ''5'' 0 0)) = 5"
  using read_float_decodes_numeral [of "[]" "''12''" "''345''" True "'' ''" "''X''" 0]
    read_float_decodes_numeral [of "''+''" "''5''" "[]" False "[]" "[]" 0]
    read_float_decodes_numeral [of "[]" "''5''" "[]" False "[]" "[]" 0]
  by (simp add: is_digit_def ends_scan_def numeral_text_def digits_value_def digit_val_def)

text \<open>
  The claim as stated fails twice. It counts significant digits, the decoder counts
  digits: \<open>"0000000001"\<close> has one significant digit and the value 1, and decodes to 0
  (the eight leading zeros fill the accumulator, the last two digits only raise the
  exponent). And the cursor is an 8-bit value: a numeral that ends at index 256 returns
  the cursor 0.
\<close>

theorem read_float_leading_zeros_counterexample:
  "read_float ''0000000001'' 0 0 = (True, 10, 0) \<and> digits_value ''0000000001'' = 1
   \<and> fst (snd (read_float (replicate 250 CHR ''X'' @ ''12.345'') 250 0)) = 0"
  by (simp add: read_float_def accept_digit_def scan_init_def apply_decimal_def MAX_INT_DIGITS_def
      digits_value_def digit_val_def)




text \<open>
  Claim C8. When no digit is readable at the cursor, \<open>read_float\<close> returns failure and
  both the cursor and the output value are as they were.
\<close>

theorem read_float_no_digits_fails:
  assumes "no_digit_at line (unat char_counter)"
  shows "read_float line char_counter float_ptr = (False, char_counter, float_ptr)"
proof -
  have "num_digits (snd (scan_number (skip_sign (drop (unat char_counter) line)) p scan_init)) = 0" for p
    using assms by (intro scan_no_digit) (simp add: no_digit_at_def)
  then show ?thesis by (simp add: read_float_skip_sign Let_def)
qed

theorem read_float_no_digits_fails_witness:
  "read_float ''abc'' 0 7 = (False, 0, 7) \<and> read_float ''+'' 0 7 = (False, 0, 7)
   \<and> read_float [] 0 7 = (False, 0, 7) \<and> read_float ''G1X-.Y2'' 3 7 = (False, 3, 7)"
  using read_float_no_digits_fails [of "''abc''" 0 7] read_float_no_digits_fails [of "''+''" 0 7]
    read_float_no_digits_fails [of "[]" 0 7] read_float_no_digits_fails [of "''G1X-.Y2''" 3 7]
  by (simp add: no_digit_at_def skip_sign_def skip_point_def is_digit_def)

text \<open>
  Claim C10. A numeral without a digit before the decimal point decodes to its fraction,
  and a numeral with a decimal point and no digit after it decodes to its integer part
  with the cursor past the point.
\<close>

theorem read_float_accepts_bare_point:
  assumes "\<forall>c\<in>set ds. is_digit c" and "ds \<noteq> []" and "length ds \<le> 8" and "ends_scan True rest"
  shows "read_float (CHR ''.'' # ds @ rest) 0 old
           = (True, word_of_nat (1 + length ds), real (digits_value ds) / 10 ^ length ds)
       \<and> read_float (ds @ CHR ''.'' # rest) 0 old
           = (True, word_of_nat (length ds + 1), real (digits_value ds))"
proof -
  have sg: "[] = [] \<or> [] = ''+'' \<or> [] = ''-''" by simp
  have a: "read_float ([] @ numeral_text [] [] True ds @ rest) (word_of_nat (length ([]::string))) old
       = (True, word_of_nat (length ([] @ numeral_text [] [] True ds)),
          (if [] = ''-'' then - 1 else 1) * (real (digits_value ([] @ ds)) / 10 ^ length ds))"
    using assms by (intro read_float_numeral_capped) (simp_all add: numeral_text_def)
  have b: "read_float ([] @ numeral_text [] ds True [] @ rest) (word_of_nat (length ([]::string))) old
       = (True, word_of_nat (length ([] @ numeral_text [] ds True [])),
          (if [] = ''-'' then - 1 else 1) * (real (digits_value (ds @ [])) / 10 ^ length ([]::string)))"
    using assms by (intro read_float_numeral_capped) (simp_all add: numeral_text_def)
  show ?thesis using a b by (simp add: numeral_text_def)
qed

theorem read_float_accepts_bare_point_witness:
  "read_float ''.5'' 0 0 = (True, 2, 0.5) \<and> read_float ''5.'' 0 0 = (True, 2, 5)"
  using read_float_accepts_bare_point [of "''5''" "[]" 0]
  by (simp add: is_digit_def ends_scan_def digits_value_def digit_val_def)

section \<open>Properties of the status report throttle\<close>

lemma wco_field_sys:
  "fst (wco_field cfg snap s) =
     s\<lparr>report_wco_counter :=
          (if \<not> REPORT_FIELD_WORK_COORD_OFFSET cfg then report_wco_counter s
           else if report_wco_counter s > 0 then report_wco_counter s - 1
           else if busy (state s) then REPORT_WCO_REFRESH_BUSY_COUNT cfg - 1
           else REPORT_WCO_REFRESH_IDLE_COUNT cfg - 1),
        report_ovr_counter :=
          (if REPORT_FIELD_WORK_COORD_OFFSET cfg \<and> \<not> report_wco_counter s > 0
              \<and> report_ovr_counter s = 0
           then 1 else report_ovr_counter s)\<rparr>"
  by (simp add: wco_field_def Let_def)

lemma ovr_field_sys:
  "fst (ovr_field cfg snap s) =
     s\<lparr>report_ovr_counter :=
          (if \<not> REPORT_FIELD_OVERRIDES cfg then report_ovr_counter s
           else if report_ovr_counter s > 0 then report_ovr_counter s - 1
           else if busy (state s) then REPORT_OVR_REFRESH_BUSY_COUNT cfg - 1
           else REPORT_OVR_REFRESH_IDLE_COUNT cfg - 1)\<rparr>"
  by (simp add: ovr_field_def Let_def)

lemma wco_emitted_iff:
  "wco_emitted cfg snap s \<longleftrightarrow> REPORT_FIELD_WORK_COORD_OFFSET cfg \<and> report_wco_counter s \<le> 0"
  by (auto simp: wco_emitted_def wco_text_def wco_field_def Let_def)

lemma ovr_emitted_iff:
  "ovr_emitted cfg snap s \<longleftrightarrow>
     REPORT_FIELD_OVERRIDES cfg \<and>
     (if wco_emitted cfg snap s \<and> report_ovr_counter s = 0 then False
      else report_ovr_counter s \<le> 0)"
  by (auto simp: ovr_emitted_def ovr_text_def ovr_field_def wco_field_sys wco_emitted_iff Let_def)

lemma after_report_fields:
  "after_report cfg snap s = fst (ovr_field cfg snap (fst (wco_field cfg snap s)))"
  by (simp add: after_report_def report_realtime_status_def split: prod.splits)

lemma report_realtime_status_frame:
  "report_realtime_status cfg snap cl status s =
     (after_report cfg snap s,
      grbl_send cl (status @ wco_text cfg snap s @ ovr_text cfg snap s @ ''>'' @ CRLF))"
  by (simp add: after_report_def report_realtime_status_def wco_text_def ovr_text_def
      split: prod.splits)

lemma wco_text_shape:
  "wco_text cfg snap s = [] \<or> (\<exists>v. wco_text cfg snap s = ''|WCO:'' @ v)"
  by (simp add: wco_text_def wco_field_def Let_def)

lemma ovr_text_shape:
  "ovr_text cfg snap s = [] \<or> (\<exists>v. ovr_text cfg snap s = ''|Ov:'' @ v)"
  by (simp add: ovr_text_def ovr_field_def Let_def)

lemma after_report_sys:
  "after_report cfg snap s =
     s\<lparr>report_wco_counter :=
          (if \<not> REPORT_FIELD_WORK_COORD_OFFSET cfg then report_wco_counter s
           else if report_wco_counter s > 0 then report_wco_counter s - 1
           else if busy (state s) then REPORT_WCO_REFRESH_BUSY_COUNT cfg - 1
           else REPORT_WCO_REFRESH_IDLE_COUNT cfg - 1),
        report_ovr_counter :=
          (let mid = (if wco_emitted cfg snap s \<and> report_ovr_counter s = 0 then 1
                      else report_ovr_counter s)
           in if \<not> REPORT_FIELD_OVERRIDES cfg then mid
              else if mid > 0 then mid - 1
              else if busy (state s) then REPORT_OVR_REFRESH_BUSY_COUNT cfg - 1
              else REPORT_OVR_REFRESH_IDLE_COUNT cfg - 1)\<rparr>"
  by (simp add: after_report_fields wco_field_sys ovr_field_sys wco_emitted_iff Let_def)

lemma after_report_state: "state (after_report cfg snap s) = state s"
  by (simp add: after_report_sys)

lemma after_reports_state: "state (after_reports cfg snap n s) = state s"
  by (induction n arbitrary: s) (simp_all add: after_report_state)



lemma ovr_countdown:
  assumes "REPORT_FIELD_OVERRIDES cfg"
  shows "int j \<le> report_ovr_counter s \<Longrightarrow>
         report_ovr_counter (after_reports cfg snap j s) = report_ovr_counter s - int j"
proof (induction j arbitrary: s)
  case 0
  then show ?case by simp
next
  case (Suc j)
  have pos: "0 < report_ovr_counter s" using Suc.prems by simp
  have st: "report_ovr_counter (after_report cfg snap s) = report_ovr_counter s - 1"
    using pos assms by (simp add: after_report_sys Let_def)
  have "int j \<le> report_ovr_counter (after_report cfg snap s)" using Suc.prems st by simp
  from Suc.IH [OF this] show ?case using st by simp
qed

section \<open>Properties of the formatters\<close>
























subsection \<open>Claims about the encoders\<close>





subsection \<open>Claims about the throttle\<close>

lemmas example_simps = example_config_def example_snapshot_def sys_reset_def busy_def
  after_report_sys wco_emitted_iff ovr_emitted_iff




text \<open>
  Claim C4, as amended. In the idle state, after an invocation that emits the override
  field, none of the next \<open>REPORT_OVR_REFRESH_IDLE_COUNT - 1\<close> invocations emits it, and the
  invocation after those emits it unless the work-offset field is emitted in that frame
  (which defers the override field). Two emissions are therefore at least
  \<open>REPORT_OVR_REFRESH_IDLE_COUNT\<close> invocations apart.
\<close>

theorem override_refresh_idle:
  assumes en: "REPORT_FIELD_OVERRIDES cfg"
    and idle: "state s = STATE_IDLE"
    and em: "ovr_emitted cfg snap s"
    and v: "1 \<le> REPORT_OVR_REFRESH_IDLE_COUNT cfg"
  shows "(\<forall>k. 1 \<le> k \<and> int k < REPORT_OVR_REFRESH_IDLE_COUNT cfg \<longrightarrow>
            \<not> ovr_emitted cfg snap (after_reports cfg snap k s))
       \<and> (ovr_emitted cfg snap (after_reports cfg snap (nat (REPORT_OVR_REFRESH_IDLE_COUNT cfg)) s)
            \<longleftrightarrow> \<not> wco_emitted cfg snap
                  (after_reports cfg snap (nat (REPORT_OVR_REFRESH_IDLE_COUNT cfg)) s))"
proof -
  define V where "V = REPORT_OVR_REFRESH_IDLE_COUNT cfg"
  define s1 where "s1 = after_report cfg snap s"
  have c1: "report_ovr_counter s1 = V - 1"
    using em idle en by (auto simp: s1_def V_def after_report_sys ovr_emitted_iff busy_def Let_def split: if_splits)
  have run: "report_ovr_counter (after_reports cfg snap (Suc j) s) = V - 1 - int j" if "int j \<le> V - 1" for j
    using ovr_countdown [OF en, of j s1 snap] that c1 by (simp add: s1_def)
  have a: "\<not> ovr_emitted cfg snap (after_reports cfg snap k s)" if k: "1 \<le> k" "int k < V" for k
  proof -
    obtain j where kj: "k = Suc j" using k(1) by (cases k) auto
    have "report_ovr_counter (after_reports cfg snap k s) = V - 1 - int j"
      unfolding kj using k(2) kj by (intro run) simp
    then have "0 < report_ovr_counter (after_reports cfg snap k s)" using k(2) kj by simp
    then show ?thesis by (simp add: ovr_emitted_iff)
  qed
  have b: "ovr_emitted cfg snap (after_reports cfg snap (nat V) s)
            \<longleftrightarrow> \<not> wco_emitted cfg snap (after_reports cfg snap (nat V) s)"
  proof -
    obtain j where vj: "nat V = Suc j" using v by (cases "nat V") (auto simp: V_def)
    have "report_ovr_counter (after_reports cfg snap (nat V) s) = V - 1 - int j"
      unfolding vj using vj by (intro run) linarith
    then have "report_ovr_counter (after_reports cfg snap (nat V) s) = 0" using vj by linarith
    then show ?thesis using en by (simp add: ovr_emitted_iff)
  qed
  show ?thesis using a b unfolding V_def by blast
qed

theorem override_refresh_idle_witness:
  "ovr_emitted example_config example_snapshot
      (after_report example_config example_snapshot (sys_reset STATE_IDLE))
   \<and> \<not> ovr_emitted example_config example_snapshot
      (after_reports example_config example_snapshot 9
         (after_report example_config example_snapshot (sys_reset STATE_IDLE)))
   \<and> ovr_emitted example_config example_snapshot
      (after_reports example_config example_snapshot 10
         (after_report example_config example_snapshot (sys_reset STATE_IDLE)))"
proof -
  let ?s = "after_report example_config example_snapshot (sys_reset STATE_IDLE)"
  have h1: "REPORT_FIELD_OVERRIDES example_config" by (simp add: example_config_def)
  have h2: "state ?s = STATE_IDLE" by (simp add: after_report_state sys_reset_def)
  have h3: "ovr_emitted example_config example_snapshot ?s" by (simp add: example_simps)
  have h4: "1 \<le> REPORT_OVR_REFRESH_IDLE_COUNT example_config" by (simp add: example_config_def)
  have w: "\<not> wco_emitted example_config example_snapshot
      (after_reports example_config example_snapshot 10 ?s)"
    by (simp add: example_simps eval_nat_numeral)
  have v: "nat (REPORT_OVR_REFRESH_IDLE_COUNT example_config) = 10" by (simp add: example_config_def)
  have nine: "1 \<le> (9::nat) \<and> int 9 < REPORT_OVR_REFRESH_IDLE_COUNT example_config"
    by (simp add: example_config_def)
  show ?thesis using override_refresh_idle [OF h1 h2 h3 h4] h3 w nine unfolding v by blast
qed

text \<open>
  The claim as stated fails. After two reports in the run state the override counter
  holds 19; the ten idle invocations that follow emit no override field. And with a
  work-offset idle count of 3, the override field is emitted in the invocations 2, 12 and
  23 after a reset: the third emission is deferred by the work-offset field.
\<close>

theorem override_refresh_idle_counterexample:
  "state ((after_reports example_config example_snapshot 2 (sys_reset STATE_CYCLE))\<lparr>state := STATE_IDLE\<rparr>)
     = STATE_IDLE
   \<and> REPORT_OVR_REFRESH_IDLE_COUNT example_config = 10
   \<and> ovr_trace example_config example_snapshot 10
       ((after_reports example_config example_snapshot 2 (sys_reset STATE_CYCLE))\<lparr>state := STATE_IDLE\<rparr>)
     = [False, False, False, False, False, False, False, False, False, False]
   \<and> ovr_trace (example_config\<lparr>REPORT_WCO_REFRESH_IDLE_COUNT := 3\<rparr>) example_snapshot 23
       (sys_reset STATE_IDLE)
     = [False, True, False, False, False, False, False, False, False, False, False,
        True, False, False, False, False, False, False, False, False, False, False, True]"
  by (simp add: example_simps eval_nat_numeral)







end
